theory Spec2Isabelle
  imports Main
begin

section \<open>The retry pattern: \<open>src/retry/index.js\<close>\<close>

text \<open>
  \<^verbatim>\<open>
  function retryOperation(operation, retries, delay) {
    return new Promise((resolve, reject) => {
      function attemptOperation() {
        console.log("Retries Left: ", retries);
        operation()
          .then(resolve)
          .catch(() => {
            if (retries <= 0) {
              reject(new Error("Maximum retries exhausted!"));
            } else {
              retries--;
              setTimeout(attemptOperation, delay);
            }
          });
      }
      attemptOperation();
    });
  }
  \<close>
  The function is asynchronous: its body runs \<open>attemptOperation\<close> once, and everything
  after that happens in callbacks that the event loop runs one at a time. The model is
  the state of one call (the captured variables \<open>retries\<close> and \<open>delay\<close>, the returned
  promise, and what has been observed so far) together with a step function that runs the
  next callback. The call may go on for ever, so the event loop is a partial function.
\<close>

subsection \<open>The operation, the timers and their environment\<close>

text \<open>
  \<open>operation()\<close> returns a promise (an operation that throws instead of returning one
  is not an operation in the sense of the specification, and is outside the model). A
  promise is fulfilled with a value, rejected with a reason, or stays pending for ever.
  The operation has side effects and may answer differently each time, so it is given as
  the outcome of its invocation number \<open>i\<close> (counting from 0). \<open>settle_time i\<close> is the
  time the promise of invocation \<open>i\<close> takes to settle.

  \<open>setTimeout\<close> belongs to the runtime, not to the repository: \<open>timer j d\<close> is the time
  after which the runtime fires the timer number \<open>j\<close>, armed with the delay \<open>d\<close>. Nothing
  is assumed of it: a runtime may fire late, early, or replace the delay by another one.
\<close>

datatype ('v, 'r) outcome = Resolves 'v | Rejects 'r | Pending

record ('v, 'r) environment =
  operation :: "nat \<Rightarrow> ('v, 'r) outcome"
  settle_time :: "nat \<Rightarrow> nat"
  timer :: "nat \<Rightarrow> nat \<Rightarrow> nat"

subsection \<open>The state of one call\<close>

text \<open>\<open>new Error(message)\<close>: the only field the source sets is the message.\<close>

datatype js_error = Error string

text \<open>
  Where the call stands: \<open>Idle\<close> before \<open>attemptOperation()\<close> has run for the first
  time, \<open>Attempting\<close> while the promise of \<open>operation()\<close> is outstanding, \<open>Waiting\<close>
  while the timer of \<open>setTimeout\<close> is outstanding, \<open>Succeeded v\<close> once \<open>resolve(v)\<close>
  has been called and \<open>Failed e\<close> once \<open>reject(e)\<close> has been called.
\<close>

datatype 'v phase = Idle | Attempting | Waiting | Succeeded 'v | Failed js_error

text \<open>
  \<open>retries\<close> and \<open>delay\<close> are the parameters captured by the closures. \<open>retries\<close> is
  a JavaScript number holding an integer, \<open>delay\<close> a duration in milliseconds.
  \<open>clock\<close> is the time since the call. \<open>console\<close> lists the numbers printed by
  \<open>console.log\<close>, \<open>invoked_at\<close> the times at which \<open>operation()\<close> was called and
  \<open>timeouts\<close> the delays passed to \<open>setTimeout\<close>, each in order.
\<close>

record 'v retry_state =
  phase :: "'v phase"
  retries :: int
  delay :: nat
  clock :: nat
  console :: "int list"
  invoked_at :: "nat list"
  timeouts :: "nat list"

definition invocations :: "'v retry_state \<Rightarrow> nat" where
  "invocations s = length (invoked_at s)"

subsection \<open>Arithmetic of the counter\<close>

text \<open>
  A JavaScript number is a binary64 floating-point number: 53 significant bits, results
  rounded to the nearest representable number, ties to the one with an even significand.
  Every integer up to \<open>2 ^ 53\<close> in absolute value is representable; above, only
  multiples of a power of two are. \<open>nearest64 m\<close> is the natural number \<open>m\<close> so rounded
  (\<open>bitlen m\<close> is the number of bits of \<open>m\<close>), \<open>binary64 x\<close> the same for an integer.
  \<open>retries--\<close> stores \<open>binary64 (retries - 1)\<close>. (Overflow to infinity cannot occur in a
  decrement of a positive number.)
\<close>

fun bitlen :: "nat \<Rightarrow> nat" where
  "bitlen m = (if m = 0 then 0 else Suc (bitlen (m div 2)))"

definition nearest64 :: "nat \<Rightarrow> nat" where
  "nearest64 m =
     (if bitlen m \<le> 53 then m
      else let u = 2 ^ (bitlen m - 53); q = m div u; r = m mod u
           in if 2 * r < u then q * u
              else if u < 2 * r then (q + 1) * u
              else if even q then q * u else (q + 1) * u)"

definition binary64 :: "int \<Rightarrow> int" where
  "binary64 x = (if 0 \<le> x then int (nearest64 (nat x)) else - int (nearest64 (nat (- x))))"

subsection \<open>The callbacks\<close>

text \<open>\<open>attemptOperation\<close>: log the retries left, then call the operation.\<close>

definition attemptOperation :: "'v retry_state \<Rightarrow> 'v retry_state" where
  "attemptOperation s =
     s\<lparr>console := console s @ [retries s],
       invoked_at := invoked_at s @ [clock s],
       phase := Attempting\<rparr>"

text \<open>
  \<open>resolve\<close> and \<open>reject\<close> settle the promise of the call; \<open>.then(resolve)\<close> hands
  the value of the operation to \<open>resolve\<close> as it is. \<open>setTimeout\<close> arms a timer.
\<close>

definition resolve :: "'v \<Rightarrow> 'v retry_state \<Rightarrow> 'v retry_state" where
  "resolve v s = s\<lparr>phase := Succeeded v\<rparr>"

definition reject :: "js_error \<Rightarrow> 'v retry_state \<Rightarrow> 'v retry_state" where
  "reject e s = s\<lparr>phase := Failed e\<rparr>"

definition setTimeout :: "nat \<Rightarrow> 'v retry_state \<Rightarrow> 'v retry_state" where
  "setTimeout d s = s\<lparr>timeouts := timeouts s @ [d], phase := Waiting\<rparr>"

text \<open>
  \<open>.catch(() => ...)\<close>: the handler takes no parameter, so the reason of the rejection
  is not available to it.
\<close>

definition on_rejected :: "'v retry_state \<Rightarrow> 'v retry_state" where
  "on_rejected s =
     (if retries s \<le> 0
      then reject (Error ''Maximum retries exhausted!'') s
      else setTimeout (delay s) (s\<lparr>retries := binary64 (retries s - 1)\<rparr>))"

subsection \<open>The event loop\<close>

text \<open>
  One step runs the next callback of the call, if there is one. In \<open>Attempting\<close> the
  outstanding promise is that of the latest invocation, number \<open>invocations s - 1\<close>
  (\<open>attemptOperation\<close> has recorded it); in \<open>Waiting\<close> the outstanding timer is the
  latest one armed, and it fires when the runtime says so. Time passes while the call
  waits for a promise or a timer. \<open>None\<close>: nothing is left to run (the promise of the
  call is settled, the operation's promise never settles, or no timer is armed).
\<close>

definition elapse :: "nat \<Rightarrow> 'v retry_state \<Rightarrow> 'v retry_state" where
  "elapse t s = s\<lparr>clock := clock s + t\<rparr>"

definition step :: "('v, 'r) environment \<Rightarrow> 'v retry_state \<Rightarrow> 'v retry_state option" where
  "step w s =
     (case phase s of
        Idle \<Rightarrow> Some (attemptOperation s)
      | Attempting \<Rightarrow>
          (case operation w (invocations s - 1) of
             Resolves v \<Rightarrow> Some (resolve v (elapse (settle_time w (invocations s - 1)) s))
           | Rejects r \<Rightarrow> Some (on_rejected (elapse (settle_time w (invocations s - 1)) s))
           | Pending \<Rightarrow> None)
      | Waiting \<Rightarrow>
          (if timeouts s = [] then None
           else Some (attemptOperation
                  (elapse (timer w (length (timeouts s) - 1) (last (timeouts s))) s)))
      | Succeeded v \<Rightarrow> None
      | Failed e \<Rightarrow> None)"

text \<open>
  \<open>run\<close>: the event loop, until nothing is left to run. It need not stop: \<open>run w s\<close> is
  \<open>None\<close> when callbacks keep coming for ever, \<open>Some t\<close> when the loop stops in \<open>t\<close>.
  \<open>progress w s k\<close> is the state after \<open>k\<close> callbacks, if the loop gets that far.
\<close>

partial_function (option) run ::
  "('v, 'r) environment \<Rightarrow> 'v retry_state \<Rightarrow> 'v retry_state option" where
  "run w s = (case step w s of None \<Rightarrow> Some s | Some s' \<Rightarrow> run w s')"

primrec progress ::
  "('v, 'r) environment \<Rightarrow> 'v retry_state \<Rightarrow> nat \<Rightarrow> 'v retry_state option" where
  "progress w s 0 = Some s"
| "progress w s (Suc k) = (case progress w s k of None \<Rightarrow> None | Some t \<Rightarrow> step w t)"

text \<open>
  \<open>budget\<close> bounds the number of steps a state can still take while the arithmetic of
  its counter is exact: every retry uses up one of the retries left.
\<close>

definition budget :: "'v retry_state \<Rightarrow> nat" where
  "budget s =
     2 * nat (retries s) +
     (case phase s of Idle \<Rightarrow> 2 | Waiting \<Rightarrow> 2 | Attempting \<Rightarrow> 1
      | Succeeded v \<Rightarrow> 0 | Failed e \<Rightarrow> 0)"

text \<open>
  The call itself: the state at entry, the state in which the event loop stops (if it
  does), and the state after \<open>k\<close> callbacks (if there are that many).
\<close>

definition initial :: "int \<Rightarrow> nat \<Rightarrow> 'v retry_state" where
  "initial n d =
     \<lparr>phase = Idle, retries = n, delay = d, clock = 0,
      console = [], invoked_at = [], timeouts = []\<rparr>"

definition retryOperation ::
  "('v, 'r) environment \<Rightarrow> int \<Rightarrow> nat \<Rightarrow> 'v retry_state option" where
  "retryOperation w n d = run w (initial n d)"

definition execution ::
  "('v, 'r) environment \<Rightarrow> int \<Rightarrow> nat \<Rightarrow> nat \<Rightarrow> 'v retry_state option" where
  "execution w n d k = progress w (initial n d) k"

text \<open>
  Concrete environments. The two scenarios of the specification (an operation that
  always fails with "timeout", one that fails twice with "network error" and then
  succeeds with 42), one that always fails with another reason, one that succeeds at
  once, and one that fails \<open>2 ^ 53 + 2\<close> times before it succeeds; their timers fire
  when asked or a little later. \<open>clamping_timer\<close> has the timers of Node.js, which
  replace a delay below 1 or above \<open>2 ^ 31 - 1\<close> by 1.
\<close>

definition always_timeout :: "(nat, string) environment" where
  "always_timeout =
     \<lparr>operation = (\<lambda>i. Rejects ''timeout''), settle_time = (\<lambda>i. 0), timer = (\<lambda>j d. d)\<rparr>"

definition always_refused :: "(nat, string) environment" where
  "always_refused =
     \<lparr>operation = (\<lambda>i. Rejects ''refused''), settle_time = (\<lambda>i. 0), timer = (\<lambda>j d. d)\<rparr>"

definition always_succeeds :: "(nat, string) environment" where
  "always_succeeds =
     \<lparr>operation = (\<lambda>i. Resolves 7), settle_time = (\<lambda>i. 3), timer = (\<lambda>j d. d)\<rparr>"

definition fails_twice :: "(nat, string) environment" where
  "fails_twice =
     \<lparr>operation = (\<lambda>i. if i < 2 then Rejects ''network error'' else Resolves 42),
      settle_time = (\<lambda>i. 5), timer = (\<lambda>j d. d + 1)\<rparr>"


definition clamping_timer :: "(nat, string) environment" where
  "clamping_timer =
     \<lparr>operation = (\<lambda>i. Rejects ''timeout''), settle_time = (\<lambda>i. 0),
      timer = (\<lambda>j d. if 1 \<le> d \<and> d \<le> 2147483647 then d else 1)\<rparr>"

subsection \<open>The state machine of the specification\<close>

text \<open>
  The specification describes the call as a machine with the five phases above and these
  transitions: Idle to Attempting on invocation; Attempting to Succeeded on success;
  Attempting to Failed on failure with no retries left; Attempting to Waiting on failure
  with retries left; Waiting to Attempting when the delay has elapsed. Nothing leaves
  Succeeded or Failed. \<open>spec_transition\<close> is that relation on phases, written
  from the specification, to be compared with \<open>step\<close>.
\<close>

fun spec_transition :: "'v phase \<Rightarrow> 'v phase \<Rightarrow> bool" where
  "spec_transition Idle Attempting = True"
| "spec_transition Attempting (Succeeded v) = True"
| "spec_transition Attempting (Failed e) = True"
| "spec_transition Attempting Waiting = True"
| "spec_transition Waiting Attempting = True"
| "spec_transition p q = False"

fun settled :: "'v phase \<Rightarrow> bool" where
  "settled (Succeeded v) = True"
| "settled (Failed e) = True"
| "settled p = False"

subsection \<open>Outcomes by kind\<close>

fun is_rejected :: "('v, 'r) outcome \<Rightarrow> bool" where
  "is_rejected (Rejects r) = True"
| "is_rejected other = False"

datatype kind = Succeeds | Fails | Never

fun kind_of :: "('v, 'r) outcome \<Rightarrow> kind" where
  "kind_of (Resolves v) = Succeeds"
| "kind_of (Rejects r) = Fails"
| "kind_of Pending = Never"

text \<open>\<open>verdict\<close> forgets the value of a success: what is left is the kind of the phase
  (and, for a failure, the error).\<close>

definition verdict :: "'v phase \<Rightarrow> unit phase" where
  "verdict p = map_phase (\<lambda>v. ()) p"

subsection \<open>Invariants of a call\<close>

text \<open>\<open>failed_before w k\<close>: the invocations number \<open>0\<close> to \<open>k - 1\<close> were all rejected.\<close>

definition failed_before :: "('v, 'r) environment \<Rightarrow> nat \<Rightarrow> bool" where
  "failed_before w k \<longleftrightarrow> (\<forall>i<k. is_rejected (operation w i))"

text \<open>
  \<open>counted\<close>: the delay is the one given; every timer was armed with it; and there is
  one invocation per timer armed, plus the one under way or just settled.
\<close>

definition counted :: "nat \<Rightarrow> 'v retry_state \<Rightarrow> bool" where
  "counted d s \<longleftrightarrow>
     delay s = d \<and> (\<forall>t\<in>set (timeouts s). t = d) \<and>
     invocations s = length (timeouts s) +
       (case phase s of Idle \<Rightarrow> 0 | Waiting \<Rightarrow> 0 | Attempting \<Rightarrow> 1
        | Succeeded v \<Rightarrow> 1 | Failed e \<Rightarrow> 1) \<and>
     (phase s = Idle \<longrightarrow> timeouts s = []) \<and>
     (phase s = Waiting \<longrightarrow> timeouts s \<noteq> [])"

text \<open>
  \<open>exact\<close>: the counter is in the range where its arithmetic is exact, each timer armed
  has cost one retry, and a negative counter is the one the call started with.
\<close>

definition exact :: "int \<Rightarrow> 'v retry_state \<Rightarrow> bool" where
  "exact n s \<longleftrightarrow>
     retries s \<le> 2 ^ 53 \<and> retries s + int (length (timeouts s)) = n \<and>
     (retries s < 0 \<longrightarrow> retries s = n)"

text \<open>\<open>observed\<close>: what the phase says about the outcomes seen so far.\<close>

definition observed :: "('v, 'r) environment \<Rightarrow> 'v retry_state \<Rightarrow> bool" where
  "observed w s \<longleftrightarrow>
     (case phase s of
        Idle \<Rightarrow> invocations s = 0
      | Attempting \<Rightarrow> 0 < invocations s \<and> failed_before w (invocations s - 1)
      | Waiting \<Rightarrow> 0 < invocations s \<and> failed_before w (invocations s)
      | Succeeded v \<Rightarrow>
          0 < invocations s \<and> failed_before w (invocations s - 1) \<and>
          operation w (invocations s - 1) = Resolves v
      | Failed e \<Rightarrow>
          0 < invocations s \<and> failed_before w (invocations s) \<and> retries s \<le> 0 \<and>
          e = Error ''Maximum retries exhausted!'')"

text \<open>
  \<open>started\<close>: the first invocation was made at the time of the call. \<open>spaced d ts\<close>:
  consecutive times of \<open>ts\<close> are at least \<open>d\<close> apart. \<open>punctual w d\<close>: the runtime
  fires no timer armed with \<open>d\<close> earlier than \<open>d\<close> after it was armed.
\<close>

definition started :: "'v retry_state \<Rightarrow> bool" where
  "started s \<longleftrightarrow>
     (phase s = Idle \<longrightarrow> clock s = 0 \<and> invoked_at s = []) \<and>
     (phase s \<noteq> Idle \<longrightarrow> invoked_at s \<noteq> [] \<and> invoked_at s ! 0 = 0)"

definition spaced :: "nat \<Rightarrow> nat list \<Rightarrow> bool" where
  "spaced d ts \<longleftrightarrow> (\<forall>i. Suc i < length ts \<longrightarrow> ts ! i + d \<le> ts ! Suc i)"

definition punctual :: "('v, 'r) environment \<Rightarrow> nat \<Rightarrow> bool" where
  "punctual w d \<longleftrightarrow> (\<forall>j. d \<le> timer w j d)"

definition timed :: "nat \<Rightarrow> 'v retry_state \<Rightarrow> bool" where
  "timed d s \<longleftrightarrow>
     counted d s \<and> spaced d (invoked_at s) \<and> (\<forall>t\<in>set (invoked_at s). t \<le> clock s)"

text \<open>
  \<open>looping r\<close>: the call is not settled, can take a step, and its counter is \<open>r\<close>.
\<close>

definition looping :: "int \<Rightarrow> 'v retry_state \<Rightarrow> bool" where
  "looping r s \<longleftrightarrow>
     retries s = r \<and> \<not> settled (phase s) \<and> (phase s = Waiting \<longrightarrow> timeouts s \<noteq> [])"

text \<open>
  \<open>alike\<close>: two states, possibly of calls with values of different types, that agree on
  everything the control flow reads or prints.
\<close>

definition alike :: "'a retry_state \<Rightarrow> 'b retry_state \<Rightarrow> bool" where
  "alike s t \<longleftrightarrow>
     verdict (phase s) = verdict (phase t) \<and> retries s = retries t \<and>
     invocations s = invocations t \<and> console s = console t \<and>
     length (timeouts s) = length (timeouts t)"

section \<open>Properties of the counter and of the event loop\<close>

declare bitlen.simps [simp del]

lemma bitlen_le: "m < 2 ^ k \<Longrightarrow> bitlen m \<le> k"
proof (induction k arbitrary: m)
  case 0
  then have "m = 0" by simp
  then show ?case by (simp add: bitlen.simps [of 0])
next
  case (Suc k)
  then have "m div 2 < 2 ^ k" by simp
  then have "bitlen (m div 2) \<le> k" by (rule Suc.IH)
  then show ?case by (simp add: bitlen.simps [of m])
qed

lemma bitlen_eq: "2 ^ k \<le> m \<Longrightarrow> m < 2 ^ Suc k \<Longrightarrow> bitlen m = Suc k"
proof (induction k arbitrary: m)
  case 0
  then have "m = Suc 0" by simp
  then show ?case by (simp add: bitlen.simps [of "Suc 0"] bitlen.simps [of 0])
next
  case (Suc k)
  have "2 ^ k \<le> m div 2" using Suc.prems(1) by simp
  moreover have "m div 2 < 2 ^ Suc k" using Suc.prems(2) by simp
  ultimately have "bitlen (m div 2) = Suc k" by (rule Suc.IH)
  moreover have "(0::nat) < 2 ^ Suc k" by simp
  then have "m \<noteq> 0" using Suc.prems(1) by linarith
  ultimately show ?case by (simp add: bitlen.simps [of m])
qed

lemma nearest64_exact: "m \<le> 2 ^ 53 \<Longrightarrow> nearest64 m = m"
proof (cases "m < 2 ^ 53")
  case True
  then have "bitlen m \<le> 53" by (rule bitlen_le)
  then show ?thesis by (simp add: nearest64_def)
next
  case False
  assume "m \<le> 2 ^ 53"
  then have m: "m = 2 ^ 53" using False by simp
  have "bitlen m = Suc 53" by (rule bitlen_eq) (simp_all add: m)
  then show ?thesis by (simp add: nearest64_def m)
qed

lemma binary64_exact: "0 \<le> x \<Longrightarrow> x \<le> 2 ^ 53 \<Longrightarrow> binary64 x = x"
proof -
  assume a: "0 \<le> x" "x \<le> 2 ^ 53"
  then have "nat x \<le> 2 ^ 53" by (simp add: nat_le_iff)
  then have "nearest64 (nat x) = nat x" by (rule nearest64_exact)
  then show ?thesis using a by (simp add: binary64_def)
qed

lemmas retry_defs =
  retryOperation_def execution_def initial_def step_def attemptOperation_def
  resolve_def on_rejected_def reject_def setTimeout_def elapse_def invocations_def
  binary64_exact

lemma binary64_nonneg: "0 \<le> x \<Longrightarrow> 0 \<le> binary64 x"
  by (simp add: binary64_def)

lemma binary64_stuck: "binary64 9007199254740995 = 9007199254740996"
proof -
  have "bitlen 9007199254740995 = Suc 53" by (rule bitlen_eq) simp_all
  then show ?thesis by (simp add: binary64_def nearest64_def Let_def)
qed

lemma binary64_skips: "binary64 9007199254740993 = 9007199254740992"
proof -
  have "bitlen 9007199254740993 = Suc 53" by (rule bitlen_eq) simp_all
  then show ?thesis by (simp add: binary64_def nearest64_def Let_def)
qed

lemma run_None: "step w s = None \<Longrightarrow> run w s = Some s"
  by (simp add: run.simps [of w s])

lemma run_Some: "step w s = Some s' \<Longrightarrow> run w s = run w s'"
  by (simp add: run.simps [of w s])

lemma progress_first: "step w s = Some s' \<Longrightarrow> progress w s (Suc k) = progress w s' k"
  by (induction k) simp_all

lemma progress_run: "progress w s k = Some t \<Longrightarrow> run w t = run w s"
proof (induction k arbitrary: t)
  case 0
  then show ?case by simp
next
  case (Suc k)
  then obtain u where u: "progress w s k = Some u" and st: "step w u = Some t"
    by (auto split: option.splits)
  have "run w u = run w s" using u by (rule Suc.IH)
  then show ?case using st by (simp add: run_Some)
qed

lemma run_reaches:
  assumes "run w s = Some t"
  shows "\<exists>k. progress w s k = Some t \<and> step w t = None"
proof (rule run.raw_induct
    [where P = "\<lambda>w s t. \<exists>k. progress w s k = Some t \<and> step w t = None", OF _ assms])
  fix f :: "('a, 'b) environment \<Rightarrow> 'a retry_state \<Rightarrow> 'a retry_state option"
  fix w s t
  assume IH: "\<And>w s t. f w s = Some t \<Longrightarrow> \<exists>k. progress w s k = Some t \<and> step w t = None"
    and eq: "(case step w s of None \<Rightarrow> Some s | Some s' \<Rightarrow> f w s') = Some t"
  show "\<exists>k. progress w s k = Some t \<and> step w t = None"
  proof (cases "step w s")
    case None
    then have "t = s" using eq by simp
    then have "progress w s 0 = Some t \<and> step w t = None" using None by simp
    then show ?thesis by blast
  next
    case (Some s')
    then have "f w s' = Some t" using eq by simp
    then obtain k where "progress w s' k = Some t \<and> step w t = None" using IH by blast
    then have "progress w s (Suc k) = Some t \<and> step w t = None"
      using Some by (simp add: progress_first del: progress.simps)
    then show ?thesis by blast
  qed
qed

lemma step_budget:
  assumes "retries s \<le> 2 ^ 53" and "step w s = Some s'"
  shows "budget s' < budget s \<and> retries s' \<le> 2 ^ 53"
proof -
  have "0 < retries s \<Longrightarrow> binary64 (retries s - 1) = retries s - 1"
    using assms(1) by (simp add: binary64_exact)
  then show ?thesis
    using assms
    by (auto simp: step_def budget_def attemptOperation_def resolve_def on_rejected_def
          reject_def setTimeout_def elapse_def
          split: phase.splits outcome.splits if_splits)
qed

lemma run_terminates: "retries s \<le> 2 ^ 53 \<Longrightarrow> \<exists>t. run w s = Some t"
proof (induction "budget s" arbitrary: s rule: less_induct)
  case less
  show ?case
  proof (cases "step w s")
    case None
    then show ?thesis by (simp add: run_None)
  next
    case (Some s')
    then have "budget s' < budget s" and "retries s' \<le> 2 ^ 53"
      using step_budget [OF less.prems Some] by simp_all
    then have "\<exists>t. run w s' = Some t" by (rule less.hyps)
    then show ?thesis using Some by (simp add: run_Some)
  qed
qed


lemma progress_preserves:
  assumes "P s" and "\<And>s s'. P s \<Longrightarrow> step w s = Some s' \<Longrightarrow> P s'"
    and "progress w s k = Some t"
  shows "P t"
  using assms(3)
proof (induction k arbitrary: t)
  case 0
  then show ?case using assms(1) by simp
next
  case (Suc k)
  then obtain u where u: "progress w s k = Some u" and st: "step w u = Some t"
    by (auto split: option.splits)
  have "P u" using u by (rule Suc.IH)
  then show ?case using st by (rule assms(2))
qed

lemma run_final: "run w s = Some t \<Longrightarrow> step w t = None"
  using run_reaches by blast

lemma run_preserves:
  assumes "P s" and "\<And>s s'. P s \<Longrightarrow> step w s = Some s' \<Longrightarrow> P s'"
    and "run w s = Some t"
  shows "P t"
proof -
  obtain k where "progress w s k = Some t" using run_reaches [OF assms(3)] by blast
  then show ?thesis using assms(1,2) progress_preserves [of P s w k t] by blast
qed

lemma reaches_run: "progress w s k = Some t \<Longrightarrow> step w t = None \<Longrightarrow> run w s = Some t"
  using progress_run [of w s k t] run_None [of w t] by simp

lemma counted_initial: "counted d (initial n d)"
  by (simp add: counted_def initial_def invocations_def)

lemma counted_step: "counted d s \<Longrightarrow> step w s = Some s' \<Longrightarrow> counted d s'"
  by (auto simp: counted_def step_def attemptOperation_def resolve_def on_rejected_def
        reject_def setTimeout_def elapse_def invocations_def
        split: phase.splits outcome.splits if_splits)

lemma exact_initial: "n \<le> 2 ^ 53 \<Longrightarrow> exact n (initial n d)"
  by (simp add: exact_def initial_def)

lemma exact_step:
  assumes "exact n s" and "step w s = Some s'"
  shows "exact n s'"
proof -
  have "0 < retries s \<Longrightarrow> binary64 (retries s - 1) = retries s - 1"
    using assms(1) by (simp add: exact_def binary64_exact)
  then show ?thesis
    using assms
    by (auto simp: exact_def step_def attemptOperation_def resolve_def on_rejected_def
          reject_def setTimeout_def elapse_def
          split: phase.splits outcome.splits if_splits)
qed

lemma nonneg_step:
  assumes "0 \<le> retries s" and "step w s = Some s'"
  shows "0 \<le> retries s'"
proof -
  have "0 < retries s \<Longrightarrow> 0 \<le> binary64 (retries s - 1)"
    by (simp add: binary64_nonneg)
  then show ?thesis
    using assms
    by (auto simp: step_def attemptOperation_def resolve_def on_rejected_def
          reject_def setTimeout_def elapse_def
          split: phase.splits outcome.splits if_splits)
qed

lemma failed_before_Suc:
  "failed_before w k \<Longrightarrow> is_rejected (operation w k) \<Longrightarrow> failed_before w (Suc k)"
  by (auto simp: failed_before_def less_Suc_eq)

lemma failed_before_0 [simp]: "failed_before w 0"
  by (simp add: failed_before_def)



lemma observed_initial: "observed w (initial n d)"
  by (simp add: observed_def initial_def invocations_def)

lemma observed_step: "observed w s \<Longrightarrow> step w s = Some s' \<Longrightarrow> observed w s'"
  by (auto simp: observed_def step_def attemptOperation_def resolve_def
        on_rejected_def reject_def setTimeout_def elapse_def invocations_def
        split: phase.splits outcome.splits if_splits
        dest: failed_before_Suc)

lemma started_initial: "started (initial n d)"
  by (simp add: started_def initial_def)

lemma started_step: "started s \<Longrightarrow> step w s = Some s' \<Longrightarrow> started s'"
  by (auto simp: started_def step_def attemptOperation_def resolve_def
        on_rejected_def reject_def setTimeout_def elapse_def nth_append
        split: phase.splits outcome.splits if_splits)

lemma spaced_snoc:
  "spaced d ts \<Longrightarrow> \<forall>t\<in>set ts. t + d \<le> u \<Longrightarrow> spaced d (ts @ [u])"
  by (auto simp: spaced_def nth_append less_Suc_eq)

lemma timed_initial: "timed d (initial n d)"
  by (simp add: timed_def counted_initial) (simp add: initial_def spaced_def)

lemma timed_step:
  assumes "punctual w d" and "timed d s" and "step w s = Some s'"
  shows "timed d s'"
proof -
  have c: "counted d s" and sp: "spaced d (invoked_at s)"
    and le: "\<forall>t\<in>set (invoked_at s). t \<le> clock s"
    using assms(2) by (simp_all add: timed_def)
  have c': "counted d s'" using c assms(3) by (rule counted_step)
  have "spaced d (invoked_at s') \<and> (\<forall>t\<in>set (invoked_at s'). t \<le> clock s')"
  proof (cases "phase s")
    case Idle
    then have "invoked_at s = []" using c by (auto simp: counted_def invocations_def)
    then show ?thesis
      using Idle assms(3) by (auto simp: step_def attemptOperation_def spaced_def)
  next
    case Attempting
    have le2: "\<And>x t. t \<in> set (invoked_at s) \<Longrightarrow> t \<le> clock s + x"
      using le by (simp add: trans_le_add1)
    show ?thesis
      using Attempting assms(3) sp le2
      by (auto simp: step_def resolve_def on_rejected_def reject_def setTimeout_def elapse_def
            split: outcome.splits if_splits)
  next
    case Waiting
    then have ne: "timeouts s \<noteq> []" using c by (simp add: counted_def)
    then have "last (timeouts s) = d" using c by (simp add: counted_def)
    moreover have "d \<le> timer w (length (timeouts s) - 1) d"
      using assms(1) by (simp add: punctual_def)
    ultimately have late: "d \<le> timer w (length (timeouts s) - 1) (last (timeouts s))"
      by simp
    let ?u = "clock s + timer w (length (timeouts s) - 1) (last (timeouts s))"
    have s': "s' = attemptOperation (elapse (timer w (length (timeouts s) - 1) (last (timeouts s))) s)"
      using Waiting ne assms(3) by (simp add: step_def)
    have "\<forall>t\<in>set (invoked_at s). t + d \<le> ?u" using le late by (auto intro: add_mono)
    then have "spaced d (invoked_at s @ [?u])" using sp by (simp add: spaced_snoc)
    moreover have "\<forall>t\<in>set (invoked_at s). t \<le> ?u" using le by (auto intro: trans_le_add1)
    ultimately show ?thesis by (simp add: s' attemptOperation_def elapse_def)
  next
    case (Succeeded v)
    then show ?thesis using assms(3) by (simp add: step_def)
  next
    case (Failed e)
    then show ?thesis using assms(3) by (simp add: step_def)
  qed
  then show ?thesis using c' by (simp add: timed_def)
qed

lemma looping_step:
  assumes "\<forall>i. is_rejected (operation w i)" and "binary64 (r - 1) = r" and "0 < r"
    and "looping r s"
  shows "\<exists>s'. step w s = Some s' \<and> looping r s'"
proof (cases "phase s")
  case Idle
  then show ?thesis using assms(4) by (simp add: step_def looping_def attemptOperation_def)
next
  case Attempting
  obtain x where "operation w (invocations s - 1) = Rejects x"
    using assms(1) by (metis is_rejected.elims(2))
  then show ?thesis
    using Attempting assms(2,3,4)
    by (simp add: step_def looping_def on_rejected_def setTimeout_def elapse_def)
next
  case Waiting
  then show ?thesis
    using assms(4) by (simp add: step_def looping_def attemptOperation_def elapse_def)
next
  case (Succeeded v)
  then show ?thesis using assms(4) by (simp add: looping_def)
next
  case (Failed e)
  then show ?thesis using assms(4) by (simp add: looping_def)
qed

lemma never_stops:
  assumes "\<forall>i. is_rejected (operation w i)" and "binary64 (r - 1) = r" and "0 < r"
    and "looping r s"
  shows "run w s = None"
proof (cases "run w s")
  case None
  then show ?thesis .
next
  case (Some t)
  have "looping r t"
  proof (rule run_preserves [where P = "looping r", OF assms(4) _ Some])
    fix a a' assume "looping r a" and "step w a = Some a'"
    then show "looping r a'" using looping_step [OF assms(1,2,3), of a] by auto
  qed
  then have "step w t \<noteq> None" using looping_step [OF assms(1,2,3), of t] by auto
  then show ?thesis using run_final [OF Some] by simp
qed

lemma stops_cases:
  assumes "observed w s" and "counted d s" and "run w s = Some t"
  obtains
    (succeeded) v where "phase t = Succeeded v"
      and "operation w (invocations t - 1) = Resolves v"
      and "failed_before w (invocations t - 1)"
  | (failed) "phase t = Failed (Error ''Maximum retries exhausted!'')"
      and "failed_before w (invocations t)" and "retries t \<le> 0"
  | (pending) "phase t = Attempting"
      and "operation w (invocations t - 1) = Pending"
      and "failed_before w (invocations t - 1)"
proof -
  have fin: "step w t = None" using assms(3) by (rule run_final)
  have obs: "observed w t"
    using assms(1) observed_step assms(3) by (rule run_preserves [where P = "observed w"])
  have cnt: "counted d t"
    using assms(2) counted_step assms(3) by (rule run_preserves [where P = "counted d"])
  show thesis
  proof (cases "phase t")
    case Idle
    then show ?thesis using fin by (simp add: step_def)
  next
    case Attempting
    then have "operation w (invocations t - 1) = Pending"
      using fin by (simp add: step_def split: outcome.splits)
    then show ?thesis using Attempting obs pending by (simp add: observed_def)
  next
    case Waiting
    then show ?thesis using fin cnt by (simp add: step_def counted_def)
  next
    case (Succeeded v)
    then show ?thesis using obs succeeded by (simp add: observed_def)
  next
    case (Failed e)
    then show ?thesis using obs failed by (simp add: observed_def)
  qed
qed

lemma stops_count:
  assumes "observed w s" and "counted d s" and "exact n s" and "0 \<le> n"
    and "run w s = Some t"
  shows "invocations t = length (timeouts t) + 1"
    and "retries t + int (length (timeouts t)) = n" and "0 \<le> retries t"
proof -
  have cnt: "counted d t"
    using assms(2) counted_step assms(5) by (rule run_preserves [where P = "counted d"])
  have ex: "exact n t"
    using assms(3) exact_step assms(5) by (rule run_preserves [where P = "exact n"])
  show "retries t + int (length (timeouts t)) = n" using ex by (simp add: exact_def)
  show "0 \<le> retries t" using ex assms(4) by (auto simp: exact_def)
  show "invocations t = length (timeouts t) + 1"
  proof (rule stops_cases [OF assms(1,2,5)])
    fix v assume "phase t = Succeeded v"
    then show ?thesis using cnt by (simp add: counted_def)
  next
    assume "phase t = Failed (Error ''Maximum retries exhausted!'')"
    then show ?thesis using cnt by (simp add: counted_def)
  next
    assume "phase t = Attempting"
    then show ?thesis using cnt by (simp add: counted_def)
  qed
qed

lemma exhausts_from:
  assumes "observed w s" and "counted d s" and "exact n s" and "0 \<le> n"
    and "\<forall>i\<le>nat n. is_rejected (operation w i)"
  shows "\<exists>t. run w s = Some t \<and> phase t = Failed (Error ''Maximum retries exhausted!'') \<and>
              invocations t = nat n + 1"
proof -
  have "retries s \<le> 2 ^ 53" using assms(3) by (simp add: exact_def)
  then obtain t where t: "run w s = Some t" using run_terminates by blast
  note count = stops_count [OF assms(1,2,3,4) t]
  have small: "invocations t - 1 \<le> nat n" using count by linarith
  have "phase t = Failed (Error ''Maximum retries exhausted!'') \<and> invocations t = nat n + 1"
  proof (rule stops_cases [OF assms(1,2) t])
    fix v assume "operation w (invocations t - 1) = Resolves v"
    then show ?thesis using assms(5) small by (metis is_rejected.simps(2))
  next
    assume "operation w (invocations t - 1) = Pending"
    then show ?thesis using assms(5) small by (metis is_rejected.simps(3))
  next
    assume f: "phase t = Failed (Error ''Maximum retries exhausted!'')" and "retries t \<le> 0"
    then have "int (length (timeouts t)) = n" using count by linarith
    then show ?thesis using f count(1) by auto
  qed
  then show ?thesis using t by blast
qed


lemma execution_step: "execution w n d k = Some s \<Longrightarrow> execution w n d (Suc k) = step w s"
  by (simp add: execution_def)

lemma execution_before:
  "execution w n d (Suc k) = Some s' \<Longrightarrow> \<exists>s. execution w n d k = Some s \<and> step w s = Some s'"
  by (auto simp: execution_def split: option.splits)

lemma execution_run: "execution w n d k = Some s \<Longrightarrow> run w s = retryOperation w n d"
  by (simp add: execution_def retryOperation_def progress_run)

lemma result_reached:
  "retryOperation w n d = Some t \<Longrightarrow> \<exists>k. execution w n d k = Some t \<and> step w t = None"
  unfolding execution_def retryOperation_def by (rule run_reaches)

lemma reach_counted: "execution w n d k = Some s \<Longrightarrow> counted d s"
  unfolding execution_def
  using counted_initial counted_step by (rule progress_preserves [where P = "counted d"])

lemma reach_observed: "execution w n d k = Some s \<Longrightarrow> observed w s"
  unfolding execution_def
  using observed_initial observed_step by (rule progress_preserves [where P = "observed w"])

lemma reach_started: "execution w n d k = Some s \<Longrightarrow> started s"
  unfolding execution_def
  using started_initial started_step by (rule progress_preserves [where P = started])

lemma reach_exact: "n \<le> 2 ^ 53 \<Longrightarrow> execution w n d k = Some s \<Longrightarrow> exact n s"
  unfolding execution_def
  using exact_initial exact_step by (rule progress_preserves [where P = "exact n"])

lemma reach_nonneg:
  assumes "0 \<le> n" and "execution w n d k = Some s"
  shows "0 \<le> retries s"
proof (rule progress_preserves [where P = "\<lambda>s. 0 \<le> retries s"])
  show "0 \<le> retries (initial n d :: 'a retry_state)" using assms(1) by (simp add: initial_def)
  show "progress w (initial n d) k = Some s" using assms(2) by (simp add: execution_def)
  show "\<And>s s'. 0 \<le> retries s \<Longrightarrow> step w s = Some s' \<Longrightarrow> 0 \<le> retries s'"
    by (rule nonneg_step)
qed

lemma reach_timed:
  assumes "punctual w d" and "execution w n d k = Some s"
  shows "timed d s"
proof (rule progress_preserves [where P = "timed d"])
  show "timed d (initial n d :: 'a retry_state)" by (rule timed_initial)
  show "progress w (initial n d) k = Some s" using assms(2) by (simp add: execution_def)
  show "\<And>s s'. timed d s \<Longrightarrow> step w s = Some s' \<Longrightarrow> timed d s'"
    using assms(1) by (rule timed_step)
qed

lemma step_machine:
  assumes "step w s = Some s'"
  shows "spec_transition (phase s) (phase s')"
    and "phase s' = Waiting \<longleftrightarrow>
           phase s = Attempting \<and> is_rejected (operation w (invocations s - 1)) \<and> 0 < retries s"
    and "retries s' = (if phase s' = Waiting then binary64 (retries s - 1) else retries s)"
    and "invocations s' = (if phase s' = Attempting then invocations s + 1 else invocations s)"
    and "delay s' = delay s"
  using assms
  by (auto simp: step_def attemptOperation_def resolve_def on_rejected_def reject_def
        setTimeout_def elapse_def invocations_def
        split: phase.splits outcome.splits if_splits)

lemma settled_final: "settled (phase s) \<Longrightarrow> step w s = None"
  by (cases "phase s") (simp_all add: step_def)

lemma alike_sym: "alike s t \<Longrightarrow> alike t s"
  by (simp add: alike_def)

lemma alike_step:
  assumes "alike s t" and "\<forall>i. kind_of (operation w i) = kind_of (operation w' i)"
  shows "rel_option alike (step w s) (step w' t)"
proof -
  have k: "kind_of (operation w (invocations s - 1)) = kind_of (operation w' (invocations t - 1))"
    using assms by (simp add: alike_def)
  have e: "timeouts s = [] \<longleftrightarrow> timeouts t = []"
    using assms(1) by (metis alike_def length_0_conv)
  show ?thesis
    using assms(1) k e
    by (cases "phase s"; cases "phase t"; cases "operation w (invocations s - 1)";
        cases "operation w' (invocations t - 1)")
       (simp_all add: alike_def verdict_def step_def attemptOperation_def resolve_def
          on_rejected_def reject_def setTimeout_def elapse_def invocations_def)
qed

lemma alike_progress:
  assumes "alike s t" and "\<forall>i. kind_of (operation w i) = kind_of (operation w' i)"
  shows "rel_option alike (progress w s k) (progress w' t k)"
proof (induction k)
  case 0
  then show ?case using assms(1) by simp
next
  case (Suc k)
  show ?case
  proof (cases "progress w s k")
    case None
    then have "progress w' t k = None" using Suc by simp
    then show ?thesis using None by simp
  next
    case (Some a)
    then obtain b where b: "progress w' t k = Some b" and ab: "alike a b"
      using Suc by (cases "progress w' t k") auto
    show ?thesis using Some b alike_step [OF ab assms(2)] by simp
  qed
qed

lemma alike_run_Some:
  assumes "alike s t" and "\<forall>i. kind_of (operation w i) = kind_of (operation w' i)"
    and "run w s = Some a"
  shows "\<exists>b. run w' t = Some b \<and> alike a b"
proof -
  obtain k where k: "progress w s k = Some a" and fin: "step w a = None"
    using run_reaches [OF assms(3)] by blast
  obtain b where b: "progress w' t k = Some b" and ab: "alike a b"
    using alike_progress [OF assms(1,2), of k] k by (cases "progress w' t k") auto
  have "step w' b = None" using alike_step [OF ab assms(2)] fin by simp
  then have "run w' t = Some b" using b by (simp add: reaches_run)
  then show ?thesis using ab by blast
qed

lemma alike_run:
  assumes "alike s t" and "\<forall>i. kind_of (operation w i) = kind_of (operation w' i)"
  shows "rel_option alike (run w s) (run w' t)"
proof (cases "run w s")
  case (Some a)
  then show ?thesis using alike_run_Some [OF assms Some] by auto
next
  case None
  have "run w' t = None"
  proof (cases "run w' t")
    case None
    then show ?thesis .
  next
    case (Some b)
    have "alike t s" using assms(1) by (rule alike_sym)
    moreover have "\<forall>i. kind_of (operation w' i) = kind_of (operation w i)"
      using assms(2) by simp
    ultimately have "\<exists>a. run w s = Some a \<and> alike b a" using Some by (rule alike_run_Some)
    then show ?thesis using None by simp
  qed
  then show ?thesis using None by simp
qed


section \<open>The claims\<close>

text \<open>
  C1, as stated, fails. The claim is for every \<open>maxRetries = n \<ge> 0\<close>. The counter is a
  binary64 number: at \<open>n = 2 ^ 53 + 4\<close> the decrement \<open>retries--\<close> rounds back to the
  same number, so with an operation that always fails the counter never reaches 0 and
  the call neither stops invoking the operation nor settles.
\<close>

theorem huge_count_never_exhausts:
  "retryOperation always_timeout 9007199254740996 1 = None"
proof -
  have loop: "looping 9007199254740996 (initial 9007199254740996 1 :: nat retry_state)"
    by (simp add: looping_def initial_def)
  have rej: "\<forall>i. is_rejected (operation always_timeout i)"
    by (simp add: always_timeout_def)
  have stuck: "binary64 (9007199254740996 - 1) = 9007199254740996"
    by (simp add: binary64_stuck)
  show ?thesis
    unfolding retryOperation_def by (rule never_stops [OF rej stuck _ loop]) simp
qed

text \<open>
  C1, amended. For every \<open>maxRetries = n\<close> with \<open>0 \<le> n \<le> 2 ^ 53\<close> (the range in which
  the arithmetic of the counter is exact) and every operation all of whose invocations
  fail, the call invokes the operation exactly \<open>n + 1\<close> times and then rejects with the
  retries-exhausted error; for \<open>n = 0\<close> that is one invocation.
\<close>

theorem always_failing_exhausts:
  assumes "0 \<le> n" and "n \<le> 2 ^ 53" and "\<forall>i. is_rejected (operation w i)"
  shows "\<exists>t. retryOperation w n d = Some t \<and> invocations t = nat n + 1 \<and>
              phase t = Failed (Error ''Maximum retries exhausted!'')"
proof -
  have "\<forall>i\<le>nat n. is_rejected (operation w i)" using assms(3) by simp
  then show ?thesis
    unfolding retryOperation_def
    using exhausts_from [OF observed_initial counted_initial exact_initial [OF assms(2)] assms(1)]
    by blast
qed

theorem always_failing_exhausts_witness:
  "(0::int) \<le> 2 \<and> (2::int) \<le> 2 ^ 53 \<and> (\<forall>i. is_rejected (operation always_timeout i)) \<and>
   map_option invocations (retryOperation always_timeout 2 1) = Some 3 \<and>
   map_option phase (retryOperation always_timeout 2 1) =
     Some (Failed (Error ''Maximum retries exhausted!'')) \<and>
   map_option invocations (retryOperation always_timeout 0 1) = Some 1 \<and>
   map_option phase (retryOperation always_timeout 0 1) =
     Some (Failed (Error ''Maximum retries exhausted!''))"
  using always_failing_exhausts [of 2 always_timeout 1]
    always_failing_exhausts [of 0 always_timeout 1]
  by (auto simp: always_timeout_def)




text \<open>
  C7, as stated, fails. At \<open>maxRetries = 2 ^ 53 + 4\<close> and with an operation whose every
  promise settles, as a rejection, the callbacks keep coming: the call never settles.
\<close>

theorem huge_count_never_settles:
  "operation always_refused 0 = Rejects ''refused'' \<and>
   retryOperation always_refused 9007199254740996 0 = None"
proof -
  have loop: "looping 9007199254740996 (initial 9007199254740996 0 :: nat retry_state)"
    by (simp add: looping_def initial_def)
  have rej: "\<forall>i. is_rejected (operation always_refused i)"
    by (simp add: always_refused_def)
  have stuck: "binary64 (9007199254740996 - 1) = 9007199254740996"
    by (simp add: binary64_stuck)
  have "run always_refused (initial 9007199254740996 0) = None"
    by (rule never_stops [OF rej stuck _ loop]) simp
  then show ?thesis by (simp add: retryOperation_def always_refused_def)
qed

text \<open>
  C7, amended. For every \<open>n\<close> with \<open>0 \<le> n \<le> 2 ^ 53\<close> and every operation whose promises
  all settle, whatever the pattern of successes and failures, the event loop stops and
  the call is settled, after at most \<open>n + 1\<close> invocations.
\<close>

theorem settles_within_budget:
  assumes "0 \<le> n" and "n \<le> 2 ^ 53" and "\<forall>i. operation w i \<noteq> Pending"
  shows "\<exists>t. retryOperation w n d = Some t \<and> settled (phase t) \<and> invocations t \<le> nat n + 1"
proof -
  have o: "observed w (initial n d)" by (rule observed_initial)
  have c: "counted d (initial n d :: 'a retry_state)" by (rule counted_initial)
  have e: "exact n (initial n d :: 'a retry_state)" using assms(2) by (rule exact_initial)
  have "retries (initial n d :: 'a retry_state) \<le> 2 ^ 53" using assms(2) by (simp add: initial_def)
  then obtain t where t: "run w (initial n d) = Some t" using run_terminates by blast
  note count = stops_count [OF o c e assms(1) t]
  have "invocations t \<le> nat n + 1" using count by linarith
  moreover have "settled (phase t)"
  proof (rule stops_cases [OF o c t])
    fix u assume "phase t = Succeeded u"
    then show ?thesis by simp
  next
    assume "phase t = Failed (Error ''Maximum retries exhausted!'')"
    then show ?thesis by simp
  next
    assume "operation w (invocations t - 1) = Pending"
    then show ?thesis using assms(3) by simp
  qed
  ultimately show ?thesis using t by (simp add: retryOperation_def)
qed

theorem settles_within_budget_witness:
  "(0::int) \<le> 3 \<and> (3::int) \<le> 2 ^ 53 \<and> (\<forall>i. operation fails_twice i \<noteq> Pending) \<and>
   map_option (settled \<circ> phase) (retryOperation fails_twice 3 1) = Some True \<and>
   map_option invocations (retryOperation fails_twice 3 1) = Some 3"
  using settles_within_budget [of 3 fails_twice 1]
  by (simp add: fails_twice_def retry_defs run.simps)




text \<open>
  C3, as stated, fails. The claim is that the failure the call ends with, when the attempt
  made with no retries left fails, carries or wraps the reason reported by the operation.
  The handler of the rejection takes no parameter and rejects with a new error that has
  only a fixed message: two operations that fail with different reasons end in the very
  same state, with the very same error.
\<close>

theorem exhausted_failure_drops_reason:
  "operation always_timeout 0 = Rejects ''timeout'' \<and>
   operation always_refused 0 = Rejects ''refused'' \<and>
   map_option phase (retryOperation always_timeout 0 1) =
     Some (Failed (Error ''Maximum retries exhausted!'')) \<and>
   map_option phase (retryOperation always_refused 0 1) =
     Some (Failed (Error ''Maximum retries exhausted!'')) \<and>
   retryOperation always_timeout 0 1 = retryOperation always_refused 0 1"
  by (simp add: always_timeout_def always_refused_def retry_defs run.simps)

text \<open>
  C3, amended. Whenever the attempt made with no retries left (\<open>retries \<le> 0\<close>) fails,
  the call is rejected with the error \<open>Error "Maximum retries exhausted!"\<close>, the same
  whatever reason the operation reported.
\<close>

theorem exhausted_failure_is_fixed:
  assumes "execution w n d k = Some s" and "phase s = Attempting" and "retries s \<le> 0"
    and "operation w (invocations s - 1) = Rejects r"
  shows "\<exists>t. retryOperation w n d = Some t \<and>
              phase t = Failed (Error ''Maximum retries exhausted!'')"
proof -
  let ?t = "on_rejected (elapse (settle_time w (invocations s - 1)) s)"
  have ph: "phase ?t = Failed (Error ''Maximum retries exhausted!'')"
    using assms(3) by (simp add: on_rejected_def reject_def elapse_def)
  have "step w s = Some ?t" using assms(2,4) by (simp add: step_def)
  moreover have "step w ?t = None" using ph by (simp add: step_def)
  ultimately have "run w s = Some ?t" by (simp add: run_Some run_None)
  moreover have "run w s = retryOperation w n d" using assms(1) by (rule execution_run)
  ultimately show ?thesis using ph by auto
qed

theorem exhausted_failure_is_fixed_witness:
  "execution always_timeout 0 1 (Suc 0) = Some (attemptOperation (initial 0 1)) \<and>
   phase (attemptOperation (initial 0 1) :: nat retry_state) = Attempting \<and>
   retries (attemptOperation (initial 0 1) :: nat retry_state) \<le> 0 \<and>
   operation always_timeout (invocations (attemptOperation (initial 0 1) :: nat retry_state) - 1)
     = Rejects ''timeout'' \<and>
   map_option phase (retryOperation always_timeout 0 1) =
     Some (Failed (Error ''Maximum retries exhausted!''))"
  using exhausted_failure_is_fixed
    [of always_timeout 0 1 "Suc 0" "attemptOperation (initial 0 1)" "''timeout''"]
  by (auto simp: always_timeout_def retry_defs)

text \<open>
  C4. If the first invocation succeeds, the operation is invoked exactly once and the call
  is fulfilled with that value, whatever \<open>maxRetries\<close> is. And no attempt follows a
  success: in every state of every execution, each invocation that was followed by
  another one had failed, and a state that has succeeded is the one the call ends in.
\<close>

theorem first_success_wins:
  "(operation w 0 = Resolves v \<longrightarrow>
      (\<exists>t. retryOperation w n d = Some t \<and> invocations t = 1 \<and> phase t = Succeeded v)) \<and>
   (\<forall>k s. execution w n d k = Some s \<longrightarrow>
      (\<forall>i. Suc i < invocations s \<longrightarrow> is_rejected (operation w i))) \<and>
   (\<forall>k s u. execution w n d k = Some s \<and> phase s = Succeeded u \<longrightarrow>
      retryOperation w n d = Some s \<and> execution w n d (Suc k) = None)"
proof (intro conjI impI allI)
  assume "operation w 0 = Resolves v"
  then show "\<exists>t. retryOperation w n d = Some t \<and> invocations t = 1 \<and> phase t = Succeeded v"
    by (simp add: retry_defs run.simps)
next
  fix k s i
  assume s: "execution w n d k = Some s" and i: "Suc i < invocations s"
  have "observed w s" using s by (rule reach_observed)
  then have "failed_before w (invocations s - 1)"
    by (cases "phase s") (auto simp: observed_def failed_before_def)
  then show "is_rejected (operation w i)" using i by (simp add: failed_before_def)
next
  fix k s u
  assume a: "execution w n d k = Some s \<and> phase s = Succeeded u"
  then have fin: "step w s = None" by (simp add: step_def)
  then have "run w s = Some s" by (rule run_None)
  then show "retryOperation w n d = Some s" using a execution_run [of w n d k s] by simp
  show "execution w n d (Suc k) = None" using a fin by (simp add: execution_step)
qed

theorem first_success_wins_witness:
  "operation always_succeeds 0 = Resolves 7 \<and>
   map_option invocations (retryOperation always_succeeds 3 1) = Some 1 \<and>
   map_option phase (retryOperation always_succeeds 3 1) = Some (Succeeded 7) \<and>
   map_option phase (execution fails_twice 3 1 (Suc (Suc (Suc (Suc (Suc (Suc 0))))))) =
     Some (Succeeded 42) \<and>
   map_option invocations (execution fails_twice 3 1 (Suc (Suc (Suc (Suc (Suc (Suc 0))))))) =
     Some 3 \<and>
   execution fails_twice 3 1 (Suc (Suc (Suc (Suc (Suc (Suc 0)))))) = retryOperation fails_twice 3 1 \<and>
   is_rejected (operation fails_twice 0) \<and> is_rejected (operation fails_twice 1)"
  using first_success_wins [of always_succeeds 7 3 1]
    first_success_wins [of fails_twice 42 3 1]
  by (simp add: always_succeeds_def fails_twice_def retry_defs run.simps)

text \<open>
  C10. For every \<open>retries < 0\<close>, a call whose first invocation fails invokes the
  operation exactly once and is rejected with the retries-exhausted error, as with
  \<open>retries = 0\<close>: the two results differ only in the count itself and in the number
  printed.
\<close>

theorem negative_retries_like_zero:
  assumes "n < 0" and "operation w 0 = Rejects r"
  shows "(\<exists>t. retryOperation w n d = Some t \<and> invocations t = 1 \<and>
              phase t = Failed (Error ''Maximum retries exhausted!'')) \<and>
         retryOperation w n d =
           map_option (\<lambda>t. t\<lparr>retries := n, console := [n]\<rparr>) (retryOperation w 0 d)"
  using assms by (simp add: retry_defs run.simps)

theorem negative_retries_like_zero_witness:
  "(-2::int) < 0 \<and> operation always_timeout 0 = Rejects ''timeout'' \<and>
   map_option invocations (retryOperation always_timeout (-2) 1) = Some 1 \<and>
   map_option phase (retryOperation always_timeout (-2) 1) =
     Some (Failed (Error ''Maximum retries exhausted!'')) \<and>
   retryOperation always_timeout (-2) 1 =
     map_option (\<lambda>t. t\<lparr>retries := -2, console := [-2]\<rparr>) (retryOperation always_timeout 0 1)"
  using negative_retries_like_zero [of "-2" always_timeout "''timeout''" 1]
  by (simp add: always_timeout_def retry_defs run.simps)

text \<open>
  C8. The decision to retry does not depend on the reason of a failure: two calls with
  the same \<open>maxRetries\<close> whose operations have, invocation by invocation, outcomes of the
  same kind (whatever the reasons, the values, the delays and the timing) make the same
  number of invocations and end in the same kind of phase, with the same error if failed;
  and if one of them never ends, neither does the other.
\<close>

theorem reasons_do_not_matter:
  assumes "\<forall>i. kind_of (operation w i) = kind_of (operation w' i)"
  shows "map_option invocations (retryOperation w n d) =
           map_option invocations (retryOperation w' n d') \<and>
         map_option (\<lambda>t. verdict (phase t)) (retryOperation w n d) =
           map_option (\<lambda>t. verdict (phase t)) (retryOperation w' n d')"
proof -
  have "alike (initial n d :: 'a retry_state) (initial n d' :: 'c retry_state)"
    by (simp add: alike_def verdict_def initial_def invocations_def)
  then have "rel_option alike (retryOperation w n d) (retryOperation w' n d')"
    unfolding retryOperation_def using assms by (rule alike_run)
  then show ?thesis
    by (cases "retryOperation w n d"; cases "retryOperation w' n d'") (simp_all add: alike_def)
qed

theorem reasons_do_not_matter_witness:
  "(\<forall>i. kind_of (operation always_timeout i) = kind_of (operation always_refused i)) \<and>
   map_option invocations (retryOperation always_timeout 2 1) = Some 3 \<and>
   map_option invocations (retryOperation always_refused 2 1) = Some 3 \<and>
   map_option (\<lambda>t. verdict (phase t)) (retryOperation always_timeout 2 1) =
     map_option (\<lambda>t. verdict (phase t)) (retryOperation always_refused 2 1)"
  using reasons_do_not_matter [of always_timeout always_refused 2 1 1]
  by (simp add: always_timeout_def always_refused_def retry_defs run.simps)



text \<open>
  C5, as stated, fails. The time between two invocations is the time the runtime lets
  pass before it fires the timer armed by \<open>setTimeout(attemptOperation, delay)\<close>, and a
  runtime need not honour every delay. With the timers of Node.js and the delay
  \<open>2 ^ 31\<close> ms, the second invocation comes 1 ms after the first.
\<close>

theorem clamped_delay_is_not_honoured:
  "(0::nat) < 2147483648 \<and>
   map_option invoked_at (retryOperation clamping_timer 1 2147483648) = Some [0, 1] \<and>
   \<not> [0, 1::nat] ! 0 + 2147483648 \<le> [0, 1] ! Suc 0"
  by (simp add: clamping_timer_def retry_defs run.simps)

text \<open>
  C5, amended. In every state of every execution: if \<open>d > 0\<close> and the runtime fires no
  timer armed with \<open>d\<close> earlier than \<open>d\<close> after it was armed, consecutive invocations of
  the operation are at least \<open>d\<close> apart. And whatever the runtime does, the first
  invocation happens at the time of the call (time 0), nothing being waited before it,
  and exactly one timer, armed with \<open>d\<close>, is set after each failed invocation that is
  retried: one per invocation made, less the one under way or just settled.
\<close>

theorem delay_between_invocations:
  assumes "execution w n d k = Some s"
  shows "(0 < d \<and> (\<forall>j. d \<le> timer w j d) \<longrightarrow>
            (\<forall>i. Suc i < invocations s \<longrightarrow> invoked_at s ! i + d \<le> invoked_at s ! Suc i)) \<and>
         (0 < invocations s \<longrightarrow> invoked_at s ! 0 = 0) \<and>
         timeouts s = replicate (length (timeouts s)) d \<and>
         invocations s =
           length (timeouts s) + (if phase s = Idle \<or> phase s = Waiting then 0 else 1)"
proof -
  have c: "counted d s" using assms by (rule reach_counted)
  have st: "started s" using assms by (rule reach_started)
  have gaps: "\<forall>i. Suc i < invocations s \<longrightarrow> invoked_at s ! i + d \<le> invoked_at s ! Suc i"
    if "\<forall>j. d \<le> timer w j d"
  proof -
    have "punctual w d" using that by (simp add: punctual_def)
    then have "timed d s" using assms by (rule reach_timed)
    then show ?thesis by (simp add: timed_def spaced_def invocations_def)
  qed
  have first: "0 < invocations s \<longrightarrow> invoked_at s ! 0 = 0"
    using st by (auto simp: started_def invocations_def)
  have "\<forall>x\<in>set (timeouts s). x = d" using c by (simp add: counted_def)
  then have "replicate (length (timeouts s)) d = timeouts s"
    by (rule replicate_length_same)
  then have tm: "timeouts s = replicate (length (timeouts s)) d" by simp
  have len: "invocations s =
      length (timeouts s) + (if phase s = Idle \<or> phase s = Waiting then 0 else 1)"
    using c by (cases "phase s") (simp_all add: counted_def)
  show ?thesis using gaps first tm len by blast
qed

theorem delay_between_invocations_witness:
  "(0::nat) < 1 \<and> (\<forall>j. (1::nat) \<le> timer fails_twice j 1) \<and>
   map_option invoked_at (execution fails_twice 3 1 (Suc (Suc (Suc (Suc (Suc (Suc 0))))))) =
     Some [0, 7, 14] \<and>
   map_option timeouts (execution fails_twice 3 1 (Suc (Suc (Suc (Suc (Suc (Suc 0))))))) =
     Some [1, 1] \<and>
   [0, 7, 14::nat] ! 0 + 1 \<le> [0, 7, 14] ! 1 \<and> [0, 7, 14::nat] ! 1 + 1 \<le> [0, 7, 14] ! 2"
  using delay_between_invocations
    [of fails_twice 3 1 "Suc (Suc (Suc (Suc (Suc (Suc 0)))))"
      "the (execution fails_twice 3 1 (Suc (Suc (Suc (Suc (Suc (Suc 0)))))))"]
  by (simp add: fails_twice_def retry_defs)

text \<open>
  C6, as stated, fails in one point: the counter is not always decremented on the
  transition from Attempting to Waiting. At \<open>maxRetries = 2 ^ 53 + 4\<close> the decrement
  rounds back to the same number, and the counter is the same after the transition.
\<close>

theorem huge_count_is_not_decremented:
  "map_option phase (execution always_timeout 9007199254740996 1 (Suc 0)) = Some Attempting \<and>
   map_option phase (execution always_timeout 9007199254740996 1 (Suc (Suc 0))) = Some Waiting \<and>
   map_option retries (execution always_timeout 9007199254740996 1 (Suc 0)) =
     Some 9007199254740996 \<and>
   map_option retries (execution always_timeout 9007199254740996 1 (Suc (Suc 0))) =
     Some 9007199254740996"
  by (simp add: always_timeout_def retry_defs binary64_stuck)

text \<open>
  C6, amended. Every execution follows the state machine of the specification. It starts
  in Idle. For consecutive states \<open>s\<close>, \<open>s'\<close> of an execution: \<open>s'\<close> is the step of
  \<open>s\<close>, and the phases make a transition of the specification; a failure with retries
  left goes from Attempting to Waiting; the counter changes exactly on the transition
  from Attempting to Waiting, where it becomes the binary64 result of the counter less
  one, which is the counter less one when the call started with \<open>maxRetries \<le> 2 ^ 53\<close>;
  an invocation of the operation happens only out of Waiting, or out of Idle for the
  first one, so every retry passes through Waiting whatever the delay (also 0); a state
  with a successor is neither Succeeded nor Failed, and a Succeeded or Failed state is
  the last of the execution and the one the call ends in.
\<close>

theorem follows_state_machine:
  assumes "execution w n d k = Some s" and "execution w n d (Suc k) = Some s'"
  shows "map_option phase (execution w n d 0) = Some Idle \<and>
         step w s = Some s' \<and>
         spec_transition (phase s) (phase s') \<and>
         (phase s = Attempting \<and> is_rejected (operation w (invocations s - 1)) \<and> 0 < retries s
            \<longrightarrow> phase s' = Waiting) \<and>
         retries s' =
           (if phase s = Attempting \<and> phase s' = Waiting then binary64 (retries s - 1)
            else retries s) \<and>
         (n \<le> 2 ^ 53 \<longrightarrow>
            retries s' =
              (if phase s = Attempting \<and> phase s' = Waiting then retries s - 1 else retries s)) \<and>
         (invocations s' \<noteq> invocations s \<longrightarrow> phase s = Waiting \<or> (phase s = Idle \<and> k = 0)) \<and>
         \<not> settled (phase s) \<and>
         (settled (phase s') \<longrightarrow>
            execution w n d (Suc (Suc k)) = None \<and> retryOperation w n d = Some s')"
proof -
  have st: "step w s = Some s'" using assms by (simp add: execution_step)
  have tr: "spec_transition (phase s) (phase s')" using st by (rule step_machine(1))
  have idle0: "phase s = Idle \<longrightarrow> k = 0"
  proof (cases k)
    case 0
    then show ?thesis by simp
  next
    case (Suc j)
    then obtain u where "step w u = Some s"
      using assms(1) execution_before [of w n d j s] by auto
    then have "spec_transition (phase u) (phase s)" by (rule step_machine(1))
    then have "phase s \<noteq> Idle" by (cases "phase u") auto
    then show ?thesis by simp
  qed
  have inv: "invocations s' \<noteq> invocations s \<longrightarrow> phase s = Waiting \<or> (phase s = Idle \<and> k = 0)"
  proof
    assume "invocations s' \<noteq> invocations s"
    then have "phase s' = Attempting" using step_machine(4) [OF st] by (auto split: if_splits)
    then have "phase s = Waiting \<or> phase s = Idle" using tr by (cases "phase s") auto
    then show "phase s = Waiting \<or> (phase s = Idle \<and> k = 0)" using idle0 by blast
  qed
  have ns: "\<not> settled (phase s)" using st settled_final [of s w] by auto
  have last: "settled (phase s') \<longrightarrow>
      execution w n d (Suc (Suc k)) = None \<and> retryOperation w n d = Some s'"
  proof
    assume "settled (phase s')"
    then have fin: "step w s' = None" by (rule settled_final)
    then have "run w s' = Some s'" by (rule run_None)
    then have "retryOperation w n d = Some s'"
      using execution_run [OF assms(2)] by simp
    moreover have "execution w n d (Suc (Suc k)) = None"
      using fin execution_step [OF assms(2)] by simp
    ultimately show "execution w n d (Suc (Suc k)) = None \<and> retryOperation w n d = Some s'"
      by simp
  qed
  have w1: "phase s = Attempting \<and> is_rejected (operation w (invocations s - 1)) \<and> 0 < retries s
            \<longrightarrow> phase s' = Waiting"
    using step_machine(2) [OF st] by blast
  have w2: "retries s' =
      (if phase s = Attempting \<and> phase s' = Waiting then binary64 (retries s - 1) else retries s)"
    using step_machine(2,3) [OF st] by auto
  have w3: "n \<le> 2 ^ 53 \<longrightarrow>
      retries s' = (if phase s = Attempting \<and> phase s' = Waiting then retries s - 1 else retries s)"
  proof
    assume "n \<le> 2 ^ 53"
    then have "exact n s" using assms(1) by (rule reach_exact)
    then have "0 < retries s \<longrightarrow> binary64 (retries s - 1) = retries s - 1"
      by (simp add: exact_def binary64_exact)
    then show "retries s' =
        (if phase s = Attempting \<and> phase s' = Waiting then retries s - 1 else retries s)"
      using w2 step_machine(2) [OF st] by auto
  qed
  have "map_option phase (execution w n d 0) = Some Idle"
    by (simp add: execution_def initial_def)
  then show ?thesis using st tr w1 w2 w3 inv ns last by blast
qed

theorem follows_state_machine_witness:
  "map_option phase (execution always_timeout 2 0 (Suc 0)) = Some Attempting \<and>
   map_option phase (execution always_timeout 2 0 (Suc (Suc 0))) = Some Waiting \<and>
   map_option retries (execution always_timeout 2 0 (Suc 0)) = Some 2 \<and>
   map_option retries (execution always_timeout 2 0 (Suc (Suc 0))) = Some 1 \<and>
   map_option invocations (execution always_timeout 2 0 (Suc (Suc 0))) = Some 1 \<and>
   map_option invocations (execution always_timeout 2 0 (Suc (Suc (Suc 0)))) = Some 2 \<and>
   (2::int) \<le> 2 ^ 53 \<and>
   step always_timeout (the (execution always_timeout 2 0 (Suc 0))) =
     execution always_timeout 2 0 (Suc (Suc 0))"
  using follows_state_machine
    [of always_timeout 2 0 "Suc 0" "the (execution always_timeout 2 0 (Suc 0))"
      "the (execution always_timeout 2 0 (Suc (Suc 0)))"]
  by (simp add: always_timeout_def retry_defs)

text \<open>
  C9, as stated, fails in one point: the counter does not always go down by exactly 1.
  At \<open>maxRetries = 2 ^ 53 + 2\<close> the first failure takes it to \<open>2 ^ 53\<close>, two less.
\<close>

theorem huge_count_drops_by_two:
  "(0::int) \<le> 9007199254740994 \<and>
   map_option phase (execution always_timeout 9007199254740994 1 (Suc 0)) = Some Attempting \<and>
   map_option retries (execution always_timeout 9007199254740994 1 (Suc 0)) =
     Some 9007199254740994 \<and>
   map_option retries (execution always_timeout 9007199254740994 1 (Suc (Suc 0))) =
     Some 9007199254740992"
  by (simp add: always_timeout_def retry_defs binary64_skips)

text \<open>
  C9, amended. In a call that starts with \<open>maxRetries = n \<ge> 0\<close>, the counter is never
  negative and starts at \<open>n\<close>, and the delay is the same in every state. When moreover
  \<open>n \<le> 2 ^ 53\<close>, the counter is never above \<open>n\<close>, goes down by exactly one on each
  failure that triggers a retry (a failure with retries left) and is unchanged by every
  other step.
\<close>

theorem retries_stay_non_negative:
  assumes "0 \<le> n" and "execution w n d k = Some s"
  shows "0 \<le> retries s \<and> delay s = d \<and>
         map_option retries (execution w n d 0) = Some n \<and>
         (n \<le> 2 ^ 53 \<longrightarrow>
            retries s \<le> n \<and>
            (\<forall>s'. execution w n d (Suc k) = Some s' \<longrightarrow>
               retries s' =
                 (if phase s = Attempting \<and>
                     is_rejected (operation w (invocations s - 1)) \<and> 0 < retries s
                  then retries s - 1 else retries s)))"
proof -
  have nn: "0 \<le> retries s" using assms by (rule reach_nonneg)
  have dl: "delay s = d" using reach_counted [OF assms(2)] by (simp add: counted_def)
  have r0: "map_option retries (execution w n d 0) = Some n"
    by (simp add: execution_def initial_def)
  have ex: "n \<le> 2 ^ 53 \<longrightarrow>
            retries s \<le> n \<and>
            (\<forall>s'. execution w n d (Suc k) = Some s' \<longrightarrow>
               retries s' =
                 (if phase s = Attempting \<and>
                     is_rejected (operation w (invocations s - 1)) \<and> 0 < retries s
                  then retries s - 1 else retries s))"
  proof (intro impI conjI allI)
    assume n: "n \<le> 2 ^ 53"
    have e: "exact n s" using n assms(2) by (rule reach_exact)
    show "retries s \<le> n" using e by (auto simp: exact_def)
    fix s' assume "execution w n d (Suc k) = Some s'"
    then have st: "step w s = Some s'" using assms(2) by (simp add: execution_step)
    have "0 < retries s \<longrightarrow> binary64 (retries s - 1) = retries s - 1"
      using e by (simp add: exact_def binary64_exact)
    then show "retries s' =
                 (if phase s = Attempting \<and>
                     is_rejected (operation w (invocations s - 1)) \<and> 0 < retries s
                  then retries s - 1 else retries s)"
      using step_machine(2,3) [OF st] by auto
  qed
  show ?thesis using nn dl r0 ex by blast
qed

theorem retries_stay_non_negative_witness:
  "(0::int) \<le> 2 \<and> (2::int) \<le> 2 ^ 53 \<and>
   map_option phase (execution always_timeout 2 7 (Suc 0)) = Some Attempting \<and>
   map_option retries (execution always_timeout 2 7 (Suc 0)) = Some 2 \<and>
   map_option retries (execution always_timeout 2 7 (Suc (Suc 0))) = Some 1 \<and>
   map_option delay (execution always_timeout 2 7 (Suc (Suc 0))) = Some 7"
  using retries_stay_non_negative
    [of 2 always_timeout 7 "Suc 0" "the (execution always_timeout 2 7 (Suc 0))"]
  by (simp add: always_timeout_def retry_defs)


end
